theory Spec2Isabelle
  imports Complex_Main "HOL-Library.Word" "HOL-Library.Multiset"
begin

section \<open>Isolation forest: the data model of IsolationForest.hpp\<close>

text \<open>
  The header instantiates its templates with a floating-point \<open>value_type\<close> and a signed
  \<open>size_type\<close> (\<open>std::int64_t\<close> by default). Finite floating-point values are modelled as
  \<open>real\<close> (rounding is not modelled), \<open>size_type\<close> as \<open>int\<close>, \<open>std::size_t\<close> as
  \<open>nat\<close>, except in \<open>shuffle\<close>, whose loop counter wraps and is a \<open>64 word\<close>.
  The special values that the arithmetic of \<open>score\<close> itself produces from finite operands
  (a division by zero, \<open>std::pow\<close> at an infinity or past the exponent range) are kept in
  the type \<open>fval\<close> below.
\<close>

record INode =
  split_value :: real
  left :: int
  right :: int

text \<open>\<open>node_type{}\<close>: the default member initialisers.\<close>

definition default_node :: INode where
  "default_node = \<lparr>split_value = 0, left = - 1, right = - 1\<rparr>"

record ITree =
  tree :: "INode list"
  max_depth :: int

text \<open>The constructor \<open>ITree(_max_depth)\<close>; \<open>reserve\<close> only sets a capacity.\<close>

definition ITree_new :: "int \<Rightarrow> ITree" where
  "ITree_new md = \<lparr>tree = [], max_depth = md\<rparr>"

text \<open>
  \<open>root_id\<close> is \<open>static_cast<size_type>(tree.size() - 1)\<close>: on an empty vector the
  unsigned subtraction wraps to \<open>2^64 - 1\<close>, which the cast reads as \<open>-1\<close>.
\<close>

definition root_id :: "INode list \<Rightarrow> int" where
  "root_id ns = int (length ns) - 1"

datatype error = AssertionFailed | OutOfBounds | DivisionByZero

section \<open>The environment: buffers and the random source\<close>

text \<open>
  Vectors of values live in a store of buffers, addressed by number; \<open>brk\<close> is the next
  unused address. \<open>rand()\<close> is the process-global generator: its whole future output is
  a parameter \<open>rnd :: nat \<Rightarrow> nat\<close>, and \<open>seed\<close> counts the calls made so far.
\<close>

record machine =
  heap :: "nat \<Rightarrow> real list"
  brk :: nat
  seed :: nat

text \<open>\<open>std::vector<value_type> data(first, last)\<close>: a fresh buffer holding a copy.\<close>

definition vector_copy :: "real list \<Rightarrow> machine \<Rightarrow> nat \<times> machine" where
  "vector_copy xs m = (brk m, m\<lparr>heap := (heap m)(brk m := xs), brk := Suc (brk m)\<rparr>)"

definition iter_swap :: "'a list \<Rightarrow> nat \<Rightarrow> nat \<Rightarrow> 'a list" where
  "iter_swap xs i j = xs[i := xs ! j, j := xs ! i]"

section \<open>std::partition with the predicate of build\_recursively\<close>

text \<open>
  \<open>build_recursively\<close> calls \<open>std::partition\<close> on span iterators, which are
  bidirectional, so the standard libraries run the two-pointer algorithm: advance
  \<open>first\<close> over elements that satisfy the predicate, retreat \<open>last\<close> over elements that
  do not, swap, repeat. The predicate is the lambda \<open>[&anchor](v) { return v < anchor; }\<close>,
  where \<open>anchor\<close> is a reference to \<open>data[anchor_index]\<close>: each test reads the buffer
  as it is at that moment, here \<open>data ! a\<close>. Iterators are offsets into the buffer; the
  tests \<open>first == last\<close> are written \<open>last \<le> first\<close>, the same on a valid range.
\<close>

function skip_front :: "real list \<Rightarrow> nat \<Rightarrow> nat \<Rightarrow> nat \<Rightarrow> nat" where
  "skip_front data a first lst =
     (if lst \<le> first then first
      else if data ! first < data ! a then skip_front data a (Suc first) lst
      else first)"
  by pat_completeness auto
termination
  by (relation "measure (\<lambda>(data, a, first, lst). lst - first)") auto

declare skip_front.simps [simp del]

function skip_back :: "real list \<Rightarrow> nat \<Rightarrow> nat \<Rightarrow> nat \<Rightarrow> nat" where
  "skip_back data a first lst =
     (if lst \<le> first then lst
      else if \<not> data ! lst < data ! a then skip_back data a first (lst - 1)
      else lst)"
  by pat_completeness auto
termination
  by (relation "measure (\<lambda>(data, a, first, lst). lst)") auto

declare skip_back.simps [simp del]

lemma skip_front_ge: "first \<le> skip_front data a first lst"
proof (induction data a first lst rule: skip_front.induct)
  case (1 data a first lst)
  then show ?case
    by (subst skip_front.simps) (auto dest: Suc_leD)
qed

lemma skip_back_le: "skip_back data a first lst \<le> lst"
proof (induction data a first lst rule: skip_back.induct)
  case (1 data a first lst)
  then show ?case
    by (subst skip_back.simps) auto
qed

function partition_std :: "real list \<Rightarrow> nat \<Rightarrow> nat \<Rightarrow> nat \<Rightarrow> real list \<times> nat" where
  "partition_std data a first lst =
     (let f = skip_front data a first lst in
      if lst \<le> f then (data, f)
      else
        let l = skip_back data a f (lst - 1) in
        if l \<le> f then (data, f)
        else partition_std (iter_swap data f l) a (Suc f) l)"
  by pat_completeness auto
termination
proof (relation "measure (\<lambda>(data, a, first, lst). lst - first)", goal_cases)
  case 1
  show ?case by simp
next
  case (2 data a first lst f l)
  have "first \<le> f" using 2(1) skip_front_ge by simp
  moreover have "l \<le> lst - 1" using 2(3) skip_back_le by simp
  ultimately show ?case using 2(2,4) by simp
qed

declare partition_std.simps [simp del]

section \<open>ITree\<close>

text \<open>
  \<open>build_recursively\<close> appends to \<open>this->tree\<close> (the node list \<open>ns\<close>), partitions the
  buffer behind the span \<open>data\<close> (the buffer at address \<open>d\<close>) and draws from \<open>rand()\<close>.
  The designated initialisers of \<open>node\<close> are evaluated in order: \<open>split_value\<close> copies
  what the reference \<open>anchor\<close> denotes after the partition and before the recursive calls.
\<close>

function build_recursively ::
  "int \<Rightarrow> (nat \<Rightarrow> nat) \<Rightarrow> nat \<Rightarrow> INode list \<Rightarrow> machine \<Rightarrow> int \<Rightarrow> int \<Rightarrow> int
     \<Rightarrow> INode list \<times> machine \<times> int" where
  "build_recursively md rnd d ns m l r depth =
     (if r \<le> l \<or> md \<le> depth \<or> r = 0 then
        (ns @ [default_node], m, root_id (ns @ [default_node]))
      else
        let anchor_index = nat (l + int (rnd (seed m)) mod (r - l));
            (data', mid) = partition_std (heap m d) anchor_index (nat l) (nat r);
            m0 = m\<lparr>heap := (heap m)(d := data'), seed := Suc (seed m)\<rparr>;
            sv = data' ! anchor_index;
            (ns1, m1, li) = build_recursively md rnd d ns m0 l (int mid) (depth + 1);
            (ns2, m2, ri) = build_recursively md rnd d ns1 m1 (int mid) r (depth + 1);
            ns3 = ns2 @ [\<lparr>split_value = sv, left = li, right = ri\<rparr>]
        in (ns3, m2, root_id ns3))"
  by pat_completeness auto
termination
  by (relation "measure (\<lambda>(md, rnd, d, ns, m, l, r, depth). nat (md - depth))") auto

declare build_recursively.simps [simp del]

text \<open>
  \<open>ITree::build(first, last)\<close>: the caller's range is the whole buffer at address \<open>src\<close>;
  it is copied into the local vector \<open>data\<close>, which the span then views.
\<close>

definition ITree_build :: "(nat \<Rightarrow> nat) \<Rightarrow> nat \<Rightarrow> ITree \<Rightarrow> machine \<Rightarrow> ITree \<times> machine" where
  "ITree_build rnd src t m =
     (let (data, m0) = vector_copy (heap m src) m;
          (ns, m1, ri) = build_recursively (max_depth t) rnd data (tree t) m0
                           0 (int (length (heap m src))) 0
      in (t\<lparr>tree := ns\<rparr>, m1))"

text \<open>
  \<open>path_length\<close> recurses along child indices and nothing in it bounds the descent, so
  on an arbitrary node vector it need not return: not returning is \<open>None\<close>. The
  \<open>assert\<close> is compiled out when \<open>NDEBUG\<close> is defined (\<open>ndebug\<close>); otherwise a failed
  assertion aborts. \<open>tree[node_index]\<close> outside the vector is \<open>OutOfBounds\<close>.
\<close>

partial_function (option) path_length ::
  "bool \<Rightarrow> INode list \<Rightarrow> real \<Rightarrow> int \<Rightarrow> int \<Rightarrow> (error + real) option" where
  "path_length ndebug ns v node_index node_depth =
     (if \<not> ndebug \<and> \<not> 0 < node_index then Some (Inl AssertionFailed)
      else if node_index < 0 \<or> int (length ns) \<le> node_index then Some (Inl OutOfBounds)
      else
        let node = ns ! nat node_index in
        if 0 \<le> left node \<or> 0 \<le> right node then
          (if v < split_value node \<and> 0 \<le> left node
             then path_length ndebug ns v (left node) (node_depth + 1)
           else if 0 \<le> right node
             then path_length ndebug ns v (right node) (node_depth + 1)
           else Some (Inr (real_of_int (node_depth - 1))))
        else Some (Inr (real_of_int (node_depth - 1))))"

declare path_length.simps [code]

section \<open>IForest\<close>

record IForest =
  trees :: "ITree list"

text \<open>The constructor: \<open>trees(num_trees, tree_type{max_depth})\<close>.\<close>

definition IForest_new :: "nat \<Rightarrow> int \<Rightarrow> IForest" where
  "IForest_new num_trees md = \<lparr>trees = replicate num_trees (ITree_new md)\<rparr>"

text \<open>
  \<open>shuffle\<close>: the counter \<open>i\<close> is a \<open>std::size_t\<close> that starts at \<open>vec.size() - 1\<close>, so it is a
  64-bit word here and the subtraction wraps on an empty vector. \<open>rand() % (i + 1)\<close> with
  \<open>i + 1 = 0\<close> is a division by zero; an iterator outside the vector is \<open>OutOfBounds\<close>.
  \<open>k\<close> counts the calls of \<open>rand()\<close>.
\<close>

function shuffle_loop ::
  "(nat \<Rightarrow> nat) \<Rightarrow> real list \<Rightarrow> nat \<Rightarrow> 64 word \<Rightarrow> error + real list \<times> nat" where
  "shuffle_loop rnd vec k i =
     (if 0 < i then
        if i + 1 = 0 then Inl DivisionByZero
        else
          let j = word_of_nat (rnd k) mod (i + 1) in
          if unat i < length vec \<and> unat j < length vec
            then shuffle_loop rnd (iter_swap vec (unat i) (unat j)) (Suc k) (i - 1)
          else Inl OutOfBounds
      else Inr (vec, k))"
  by pat_completeness auto
termination
  by (relation "measure (\<lambda>(rnd, vec, k, i). unat i)")
     (auto simp: unat_minus_one unat_gt_0)

declare shuffle_loop.simps [simp del]

definition shuffle :: "(nat \<Rightarrow> nat) \<Rightarrow> nat \<Rightarrow> machine \<Rightarrow> error + machine" where
  "shuffle rnd a m =
     (case shuffle_loop rnd (heap m a) (seed m) (word_of_nat (length (heap m a)) - 1) of
        Inl e \<Rightarrow> Inl e
      | Inr (vec, k) \<Rightarrow> Inr (m\<lparr>heap := (heap m)(a := vec), seed := k\<rparr>))"

text \<open>The loop \<open>for (auto& tree : this->trees)\<close> of \<open>IForest::build\<close>, over the buffer \<open>data\<close>.\<close>

fun build_trees ::
  "(nat \<Rightarrow> nat) \<Rightarrow> nat \<Rightarrow> ITree list \<Rightarrow> machine \<Rightarrow> error + ITree list \<times> machine" where
  "build_trees rnd data [] m = Inr ([], m)"
| "build_trees rnd data (t # ts) m =
     (case shuffle rnd data m of
        Inl e \<Rightarrow> Inl e
      | Inr m1 \<Rightarrow>
          let (t', m2) = ITree_build rnd data t m1 in
          (case build_trees rnd data ts m2 of
             Inl e \<Rightarrow> Inl e
           | Inr (ts', m3) \<Rightarrow> Inr (t' # ts', m3)))"

definition IForest_build ::
  "(nat \<Rightarrow> nat) \<Rightarrow> nat \<Rightarrow> IForest \<Rightarrow> machine \<Rightarrow> error + IForest \<times> machine" where
  "IForest_build rnd src f m =
     (let (data, m0) = vector_copy (heap m src) m in
      case build_trees rnd data (trees f) m0 of
        Inl e \<Rightarrow> Inl e
      | Inr (ts, m1) \<Rightarrow> Inr (f\<lparr>trees := ts\<rparr>, m1))"

subsection \<open>Scoring\<close>

text \<open>
  The results of the two divisions and of \<open>std::pow\<close> in \<open>score\<close>. Operands that are finite
  are reals; a division by zero gives an infinity with the sign of the dividend, or NaN for
  \<open>0 / 0\<close> (the zero divisors of \<open>score\<close> are \<open>+0\<close>); \<open>pow(2, +Inf)\<close> is \<open>+Inf\<close>,
  \<open>pow(2, -Inf)\<close> is \<open>+0\<close>, and NaN propagates. \<open>pow(2, x)\<close> overflows to \<open>+Inf\<close> once
  \<open>x\<close> reaches the binary exponent range of \<open>value_type\<close>; that bound depends on the
  template argument and is the parameter \<open>max_exp\<close> (\<open>1024\<close> for \<open>double\<close>, \<open>128\<close> for
  \<open>float\<close>).
\<close>

datatype fval = Finite real | PosInf | NegInf | NaN

fun fdiv :: "fval \<Rightarrow> real \<Rightarrow> fval" where
  "fdiv (Finite x) y =
     (if y \<noteq> 0 then Finite (x / y)
      else if 0 < x then PosInf else if x < 0 then NegInf else NaN)"
| "fdiv PosInf y = (if 0 \<le> y then PosInf else NegInf)"
| "fdiv NegInf y = (if 0 \<le> y then NegInf else PosInf)"
| "fdiv NaN y = NaN"

fun fpow2 :: "real \<Rightarrow> fval \<Rightarrow> fval" where
  "fpow2 max_exp (Finite x) = (if max_exp \<le> x then PosInf else Finite (2 powr x))"
| "fpow2 max_exp PosInf = PosInf"
| "fpow2 max_exp NegInf = Finite 0"
| "fpow2 max_exp NaN = NaN"

definition calc_depth :: "int \<Rightarrow> real" where
  "calc_depth sz =
     (if sz \<le> 1 then 0
      else 2 * (ln (real_of_int (sz - 1)) + 0.5772156649)
           - 2 * real_of_int (sz - 1) / real_of_int sz)"

text \<open>The loop of \<open>score\<close>: \<open>avg_path_len += tree.path_length(value, tree.root_id(), 0)\<close>.\<close>

fun sum_path_lengths :: "bool \<Rightarrow> real \<Rightarrow> ITree list \<Rightarrow> real \<Rightarrow> (error + real) option" where
  "sum_path_lengths ndebug v [] avg_path_len = Some (Inr avg_path_len)"
| "sum_path_lengths ndebug v (t # ts) avg_path_len =
     (case path_length ndebug (tree t) v (root_id (tree t)) 0 of
        None \<Rightarrow> None
      | Some (Inl e) \<Rightarrow> Some (Inl e)
      | Some (Inr p) \<Rightarrow> sum_path_lengths ndebug v ts (avg_path_len + p))"

text \<open>
  \<open>score\<close> is a non-const member function, called while the process state (buffers,
  random source) exists: it takes the forest and the machine and returns them with the result.
\<close>

definition IForest_score ::
  "real \<Rightarrow> bool \<Rightarrow> real \<Rightarrow> int \<Rightarrow> IForest \<times> machine
     \<Rightarrow> (error + fval \<times> IForest \<times> machine) option" where
  "IForest_score max_exp ndebug v sz = (\<lambda>(f, m).
     case sum_path_lengths ndebug v (trees f) 0 of
       None \<Rightarrow> None
     | Some (Inl e) \<Rightarrow> Some (Inl e)
     | Some (Inr s) \<Rightarrow>
         let avg_path_len = fdiv (Finite s) (real (length (trees f)))
         in Some (Inr (fpow2 max_exp (fdiv avg_path_len (calc_depth sz)), f, m)))"

text \<open>
  A process in which the caller's sequence \<open>xs\<close> is the only buffer (address \<open>0\<close>) and
  \<open>rand()\<close> has not been called yet.
\<close>

definition caller_machine :: "real list \<Rightarrow> machine" where
  "caller_machine xs = \<lparr>heap = (\<lambda>_. [])(0 := xs), brk = Suc 0, seed = 0\<rparr>"

section \<open>Invariants of built trees\<close>

text \<open>
  The shape of a node vector: every node is the default leaf or has two children at
  strictly smaller indices.
\<close>

definition tree_inv :: "INode list \<Rightarrow> bool" where
  "tree_inv ns = (\<forall>i < length ns.
     (left (ns ! i) = - 1 \<and> right (ns ! i) = - 1)
     \<or> (0 \<le> left (ns ! i) \<and> left (ns ! i) < int i \<and> 0 \<le> right (ns ! i) \<and> right (ns ! i) < int i))"

text \<open>
  \<open>reach ns b i dep\<close>: node \<open>i\<close> of \<open>ns\<close>, taken at depth \<open>dep\<close>, heads a finite binary
  tree inside \<open>ns\<close> whose leaves all lie at depth at most \<open>b\<close>.
\<close>

inductive reach :: "INode list \<Rightarrow> int \<Rightarrow> int \<Rightarrow> int \<Rightarrow> bool" for ns :: "INode list" and b :: int where
  reach_leaf: "0 \<le> i \<Longrightarrow> i < int (length ns) \<Longrightarrow> left (ns ! nat i) < 0 \<Longrightarrow> right (ns ! nat i) < 0
     \<Longrightarrow> dep \<le> b \<Longrightarrow> reach ns b i dep"
| reach_node: "0 \<le> i \<Longrightarrow> i < int (length ns) \<Longrightarrow> 0 \<le> left (ns ! nat i) \<Longrightarrow> 0 \<le> right (ns ! nat i)
     \<Longrightarrow> reach ns b (left (ns ! nat i)) (dep + 1) \<Longrightarrow> reach ns b (right (ns ! nat i)) (dep + 1)
     \<Longrightarrow> reach ns b i dep"

text \<open>
  What a call of \<open>path_length\<close> may yield on such a tree: a failed assertion (only when
  assertions are enabled) or an integer between \<open>lo\<close> and \<open>hi\<close>.
\<close>

definition path_ok :: "bool \<Rightarrow> int \<Rightarrow> int \<Rightarrow> (error + real) option \<Rightarrow> bool" where
  "path_ok ndebug lo hi res = (case res of
       None \<Rightarrow> False
     | Some (Inl e) \<Rightarrow> \<not> ndebug \<and> e = AssertionFailed
     | Some (Inr y) \<Rightarrow> (\<exists>e. y = real_of_int e \<and> lo \<le> e \<and> e \<le> hi))"

text \<open>The postcondition of \<open>build_recursively\<close> on the buffer \<open>d\<close>.\<close>

definition build_post ::
  "nat \<Rightarrow> int \<Rightarrow> INode list \<Rightarrow> machine \<Rightarrow> int \<Rightarrow> INode list \<times> machine \<times> int \<Rightarrow> bool" where
  "build_post d b ns m depth res = (case res of (ns', m', idx) \<Rightarrow>
     (\<exists>new. ns' = ns @ new \<and> new \<noteq> [])
     \<and> idx = int (length ns') - 1
     \<and> brk m' = brk m
     \<and> (\<forall>a. a \<noteq> d \<longrightarrow> heap m' a = heap m a)
     \<and> (tree_inv ns \<longrightarrow> tree_inv ns')
     \<and> reach ns' b idx depth)"

text \<open>A tree whose root heads a finite tree, with leaves no deeper than \<open>max_depth\<close>.\<close>

definition built :: "ITree \<Rightarrow> bool" where
  "built t = reach (tree t) (max (max_depth t) 0) (root_id (tree t)) 0"

section \<open>Evaluation on concrete inputs\<close>

lemmas eval_defs = caller_machine_def ITree_build_def ITree_new_def IForest_build_def IForest_new_def
  vector_copy_def shuffle_def shuffle_loop.simps word_gt_0 build_recursively.simps partition_std.simps
  skip_front.simps skip_back.simps root_id_def iter_swap_def path_length.simps default_node_def

section \<open>path\_length\<close>

lemma path_length_in_range:
  assumes "ndebug \<or> 0 < i" and "0 \<le> i" and "i < int (length ns)"
  shows "path_length ndebug ns v i d =
     (if v < split_value (ns ! nat i) \<and> 0 \<le> left (ns ! nat i)
        then path_length ndebug ns v (left (ns ! nat i)) (d + 1)
      else if 0 \<le> right (ns ! nat i)
        then path_length ndebug ns v (right (ns ! nat i)) (d + 1)
      else Some (Inr (real_of_int (d - 1))))"
proof -
  have "\<not> (\<not> ndebug \<and> \<not> 0 < i)" "\<not> (i < 0 \<or> int (length ns) \<le> i)"
    using assms by auto
  then show ?thesis
    by (subst path_length.simps) (simp only: if_False Let_def, auto)
qed

lemma path_length_assert:
  "\<not> ndebug \<Longrightarrow> \<not> 0 < i \<Longrightarrow> path_length ndebug ns v i d = Some (Inl AssertionFailed)"
  by (subst path_length.simps) simp

text \<open>
  C3: at a node inside the vector, with the assertion passed or compiled out,
  \<open>path_length\<close> descends left with \<open>depth + 1\<close> exactly when \<open>value < split_value\<close> and the
  left child exists; otherwise it descends right with \<open>depth + 1\<close> when a right child exists;
  otherwise (a leaf, or no eligible child) it returns \<open>depth - 1\<close>. Hence a root that is a leaf
  gives \<open>path_length(value, root_id(), 0) = -1\<close>.
\<close>

theorem path_length_descent:
  assumes "ndebug \<or> 0 < node_index" and "0 \<le> node_index" and "node_index < int (length ns)"
  shows "(v < split_value (ns ! nat node_index) \<and> 0 \<le> left (ns ! nat node_index) \<longrightarrow>
            path_length ndebug ns v node_index node_depth
              = path_length ndebug ns v (left (ns ! nat node_index)) (node_depth + 1))
       \<and> (\<not> (v < split_value (ns ! nat node_index) \<and> 0 \<le> left (ns ! nat node_index))
            \<and> 0 \<le> right (ns ! nat node_index) \<longrightarrow>
            path_length ndebug ns v node_index node_depth
              = path_length ndebug ns v (right (ns ! nat node_index)) (node_depth + 1))
       \<and> (\<not> (v < split_value (ns ! nat node_index) \<and> 0 \<le> left (ns ! nat node_index))
            \<and> right (ns ! nat node_index) < 0 \<longrightarrow>
            path_length ndebug ns v node_index node_depth = Some (Inr (real_of_int (node_depth - 1))))
       \<and> (left (ns ! nat node_index) < 0 \<and> right (ns ! nat node_index) < 0
            \<and> node_index = root_id ns \<and> node_depth = 0 \<longrightarrow>
            path_length ndebug ns v (root_id ns) 0 = Some (Inr (- 1)))"
proof -
  note eq = path_length_in_range [OF assms, of v node_depth]
  show ?thesis
  proof (intro conjI impI)
    assume "v < split_value (ns ! nat node_index) \<and> 0 \<le> left (ns ! nat node_index)"
    then show "path_length ndebug ns v node_index node_depth
              = path_length ndebug ns v (left (ns ! nat node_index)) (node_depth + 1)"
      by (auto simp add: eq)
  next
    assume "\<not> (v < split_value (ns ! nat node_index) \<and> 0 \<le> left (ns ! nat node_index))
            \<and> 0 \<le> right (ns ! nat node_index)"
    then show "path_length ndebug ns v node_index node_depth
              = path_length ndebug ns v (right (ns ! nat node_index)) (node_depth + 1)"
      by (auto simp add: eq)
  next
    assume "\<not> (v < split_value (ns ! nat node_index) \<and> 0 \<le> left (ns ! nat node_index))
            \<and> right (ns ! nat node_index) < 0"
    then have "\<not> (v < split_value (ns ! nat node_index) \<and> 0 \<le> left (ns ! nat node_index))"
      and "\<not> 0 \<le> right (ns ! nat node_index)" by auto
    then show "path_length ndebug ns v node_index node_depth = Some (Inr (real_of_int (node_depth - 1)))"
      by (auto simp add: eq)
  next
    assume a: "left (ns ! nat node_index) < 0 \<and> right (ns ! nat node_index) < 0
            \<and> node_index = root_id ns \<and> node_depth = 0"
    then have "\<not> (v < split_value (ns ! nat node_index) \<and> 0 \<le> left (ns ! nat node_index))"
      and "\<not> 0 \<le> right (ns ! nat node_index)" by auto
    then have "path_length ndebug ns v node_index node_depth = Some (Inr (real_of_int (node_depth - 1)))"
      by (auto simp add: eq)
    then show "path_length ndebug ns v (root_id ns) 0 = Some (Inr (- 1))"
      using a by simp
  qed
qed

theorem path_length_descent_witness:
  "path_length False [default_node, default_node, \<lparr>split_value = 5, left = 0, right = 1\<rparr>] 4 2 0
     = path_length False [default_node, default_node, \<lparr>split_value = 5, left = 0, right = 1\<rparr>] 4 0 1
   \<and> path_length False [default_node, default_node, \<lparr>split_value = 5, left = 0, right = 1\<rparr>] 7 2 0
     = path_length False [default_node, default_node, \<lparr>split_value = 5, left = 0, right = 1\<rparr>] 7 1 1
   \<and> path_length False [default_node, default_node, \<lparr>split_value = 5, left = 0, right = 1\<rparr>] 7 1 1
     = Some (Inr 0)
   \<and> path_length True [default_node] 7 (root_id [default_node]) 0 = Some (Inr (- 1))"
  using path_length_descent [of False 2 "[default_node, default_node, \<lparr>split_value = 5, left = 0, right = 1\<rparr>]" 4 0]
    path_length_descent [of False 2 "[default_node, default_node, \<lparr>split_value = 5, left = 0, right = 1\<rparr>]" 7 0]
    path_length_descent [of False 1 "[default_node, default_node, \<lparr>split_value = 5, left = 0, right = 1\<rparr>]" 7 1]
    path_length_descent [of True 0 "[default_node]" 7 0]
  by (simp add: default_node_def root_id_def)

text \<open>
  C5 (the code breaks it): on the tree built from the one-element sequence \<open>[5]\<close> with
  \<open>max_depth = 1\<close>, the query \<open>4\<close> descends from the root (index 2) into its left child,
  the leaf at index 0, where \<open>assert(node_index > 0)\<close> fails.
\<close>

theorem path_length_reaches_index_0:
  "tree (fst (ITree_build rnd 0 (ITree_new 1) (caller_machine [5])))
     = [default_node, default_node, \<lparr>split_value = 5, left = 0, right = 1\<rparr>]
   \<and> path_length False (tree (fst (ITree_build rnd 0 (ITree_new 1) (caller_machine [5])))) 4
        (root_id (tree (fst (ITree_build rnd 0 (ITree_new 1) (caller_machine [5]))))) 0
      = Some (Inl AssertionFailed)"
  by (simp add: eval_defs)

section \<open>The partition step\<close>

text \<open>
  C8 (the code breaks it): \<open>anchor\<close> is a reference into the range being partitioned. On
  \<open>[3, 2, 1]\<close> with \<open>anchor_index = 0\<close> the first swap overwrites the anchor \<open>3\<close> with \<open>1\<close>,
  the later tests compare against \<open>1\<close>, and the partition ends with \<open>mid = 1\<close> although two
  elements are below \<open>3\<close>; the element \<open>2 < 3\<close> lies in \<open>[mid, right)\<close>, and the node stores
  \<open>split_value = 1\<close>, a value that lies in \<open>[left, mid)\<close>.
\<close>

theorem partition_anchor_overwritten:
  "partition_std [3, 2, 1] 0 0 3 = ([1, 2, 3], 1)
   \<and> length (filter (\<lambda>x. x < 3) [3, 2, 1 :: real]) = 2
   \<and> tree (fst (ITree_build (\<lambda>_. 0) 0 (ITree_new 1) (caller_machine [3, 2, 1])))
       = [default_node, default_node, \<lparr>split_value = 1, left = 0, right = 1\<rparr>]
   \<and> heap (snd (ITree_build (\<lambda>_. 0) 0 (ITree_new 1) (caller_machine [3, 2, 1]))) (Suc 0)
       = [1, 2, 3]"
  by (simp add: eval_defs)

section \<open>Trees built by build\_recursively\<close>

lemma reach_append: "reach ns b i dep \<Longrightarrow> reach (ns @ xs) b i dep"
proof (induction rule: reach.induct)
  case (reach_leaf i dep)
  then show ?case by (auto simp: nth_append intro!: reach.reach_leaf)
next
  case (reach_node i dep)
  show ?case
  proof (rule reach.reach_node)
    show "0 \<le> i" "i < int (length (ns @ xs))" using reach_node.hyps by auto
    have eq: "(ns @ xs) ! nat i = ns ! nat i" using reach_node.hyps by (simp add: nth_append)
    show "0 \<le> left ((ns @ xs) ! nat i)" "0 \<le> right ((ns @ xs) ! nat i)"
      using reach_node.hyps by (simp_all add: eq)
    show "reach (ns @ xs) b (left ((ns @ xs) ! nat i)) (dep + 1)"
      "reach (ns @ xs) b (right ((ns @ xs) ! nat i)) (dep + 1)"
      using reach_node.IH by (simp_all add: eq)
  qed
qed

lemma path_ok_mono: "path_ok nd lo hi res \<Longrightarrow> lo' \<le> lo \<Longrightarrow> path_ok nd lo' hi res"
  by (auto simp: path_ok_def split: option.splits sum.splits)

lemma path_ok_leaf: "dep \<le> b \<Longrightarrow> path_ok ndebug (dep - 1) (b - 1) (Some (Inr (real_of_int (dep - 1))))"
  by (simp add: path_ok_def del: of_int_diff)

lemma reach_path_length:
  "reach ns b i dep \<Longrightarrow> path_ok ndebug (dep - 1) (b - 1) (path_length ndebug ns v i dep)"
proof (induction rule: reach.induct)
  case (reach_leaf i dep)
  show ?case
  proof (cases "ndebug \<or> 0 < i")
    case True
    note eq = path_length_in_range [OF True reach_leaf(1,2), of v dep]
    show ?thesis using reach_leaf(3,4,5) by (simp add: eq path_ok_leaf del: of_int_diff)
  next
    case False
    then show ?thesis by (simp add: path_length_assert path_ok_def)
  qed
next
  case (reach_node i dep)
  show ?case
  proof (cases "ndebug \<or> 0 < i")
    case True
    note eq = path_length_in_range [OF True reach_node.hyps(1,2), of v dep]
    have "path_ok ndebug (dep - 1) (b - 1) (path_length ndebug ns v (left (ns ! nat i)) (dep + 1))"
      and "path_ok ndebug (dep - 1) (b - 1) (path_length ndebug ns v (right (ns ! nat i)) (dep + 1))"
      using path_ok_mono [OF reach_node.IH(1), of "dep - 1"] path_ok_mono [OF reach_node.IH(2), of "dep - 1"]
      by simp_all
    with reach_node.hyps(3,4) show ?thesis
      by (simp add: eq)
  next
    case False
    then show ?thesis by (simp add: path_length_assert path_ok_def)
  qed
qed

lemma build_recursively_leaf:
  "r \<le> l \<or> md \<le> depth \<or> r = 0 \<Longrightarrow>
     build_recursively md rnd d ns m l r depth = (ns @ [default_node], m, int (length ns))"
  by (simp add: build_recursively.simps root_id_def)

lemma build_recursively_node:
  assumes "\<not> (r \<le> l \<or> md \<le> depth \<or> r = 0)"
    and "partition_std (heap m d) (nat (l + int (rnd (seed m)) mod (r - l))) (nat l) (nat r) = (data', mid)"
    and "build_recursively md rnd d ns (m\<lparr>heap := (heap m)(d := data'), seed := Suc (seed m)\<rparr>)
           l (int mid) (depth + 1) = (ns1, m1, li)"
    and "build_recursively md rnd d ns1 m1 (int mid) r (depth + 1) = (ns2, m2, ri)"
  shows "build_recursively md rnd d ns m l r depth =
           (ns2 @ [\<lparr>split_value = data' ! nat (l + int (rnd (seed m)) mod (r - l)), left = li, right = ri\<rparr>],
            m2, int (length ns2))"
  using assms by (subst build_recursively.simps) (simp add: Let_def root_id_def)

lemma build_postD:
  assumes "build_post d b ns m depth (ns', m', idx)"
  shows "\<exists>new. ns' = ns @ new \<and> new \<noteq> []" and "idx = int (length ns') - 1" and "brk m' = brk m"
    and "\<And>a. a \<noteq> d \<Longrightarrow> heap m' a = heap m a" and "tree_inv ns \<Longrightarrow> tree_inv ns'"
    and "reach ns' b idx depth"
  using assms by (auto simp add: build_post_def)

lemma tree_inv_snoc_leaf: "tree_inv ns \<Longrightarrow> tree_inv (ns @ [default_node])"
  by (auto simp: tree_inv_def nth_append default_node_def)

lemma tree_inv_snoc_node:
  "tree_inv ns \<Longrightarrow> 0 \<le> li \<Longrightarrow> li < int (length ns) \<Longrightarrow> 0 \<le> ri \<Longrightarrow> ri < int (length ns)
     \<Longrightarrow> tree_inv (ns @ [\<lparr>split_value = sv, left = li, right = ri\<rparr>])"
  by (auto simp: tree_inv_def nth_append)

lemma build_recursively_post:
  "depth \<le> b \<Longrightarrow> md \<le> b \<Longrightarrow>
     build_post d b ns m depth (build_recursively md rnd d ns m l r depth)"
proof (induction "nat (md - depth)" arbitrary: ns m l r depth)
  case 0
  then have "md \<le> depth" by simp
  then have eq: "build_recursively md rnd d ns m l r depth = (ns @ [default_node], m, int (length ns))"
    by (simp add: build_recursively_leaf)
  have "reach (ns @ [default_node]) b (int (length ns)) depth"
    using 0 by - (rule reach_leaf, simp_all add: default_node_def)
  then show ?case
    by (simp add: eq build_post_def tree_inv_snoc_leaf)
next
  case (Suc k)
  show ?case
  proof (cases "r \<le> l \<or> md \<le> depth \<or> r = 0")
    case True
    then have eq: "build_recursively md rnd d ns m l r depth = (ns @ [default_node], m, int (length ns))"
      by (rule build_recursively_leaf)
    have "reach (ns @ [default_node]) b (int (length ns)) depth"
      using Suc.prems by - (rule reach_leaf, simp_all add: default_node_def)
    then show ?thesis
      by (simp add: eq build_post_def tree_inv_snoc_leaf)
  next
    case False
    define a where "a = nat (l + int (rnd (seed m)) mod (r - l))"
    obtain data' mid where p: "partition_std (heap m d) a (nat l) (nat r) = (data', mid)"
      by (cases "partition_std (heap m d) a (nat l) (nat r)")
    define m0 where "m0 = m\<lparr>heap := (heap m)(d := data'), seed := Suc (seed m)\<rparr>"
    obtain ns1 m1 li where b1: "build_recursively md rnd d ns m0 l (int mid) (depth + 1) = (ns1, m1, li)"
      by (cases "build_recursively md rnd d ns m0 l (int mid) (depth + 1)")
    obtain ns2 m2 ri where b2: "build_recursively md rnd d ns1 m1 (int mid) r (depth + 1) = (ns2, m2, ri)"
      by (cases "build_recursively md rnd d ns1 m1 (int mid) r (depth + 1)")
    have k: "k = nat (md - (depth + 1))" and d1: "depth + 1 \<le> b"
      using Suc.hyps(2) Suc.prems False by auto
    have p1: "build_post d b ns m0 (depth + 1) (ns1, m1, li)"
      using Suc.hyps(1) [OF k d1 Suc.prems(2), of ns m0 l "int mid"] by (simp add: b1)
    have p2: "build_post d b ns1 m1 (depth + 1) (ns2, m2, ri)"
      using Suc.hyps(1) [OF k d1 Suc.prems(2), of ns1 m1 "int mid" r] by (simp add: b2)
    obtain new1 where n1: "ns1 = ns @ new1" "new1 \<noteq> []" using build_postD(1) [OF p1] by blast
    obtain new2 where n2: "ns2 = ns1 @ new2" "new2 \<noteq> []" using build_postD(1) [OF p2] by blast
    have li: "li = int (length ns1) - 1" and ri: "ri = int (length ns2) - 1"
      using build_postD(2) [OF p1] build_postD(2) [OF p2] by simp_all
    let ?node = "\<lparr>split_value = data' ! a, left = li, right = ri\<rparr>"
    have eq: "build_recursively md rnd d ns m l r depth = (ns2 @ [?node], m2, int (length ns2))"
      using build_recursively_node [OF False p [unfolded a_def] b1 [unfolded m0_def] b2]
      by (simp add: a_def)
    have bounds: "0 \<le> li" "li < int (length ns2)" "0 \<le> ri" "ri < int (length ns2)"
      using n1 n2 li ri by (cases new1; cases new2; simp)+
    have r1: "reach (ns2 @ [?node]) b li (depth + 1)"
    proof -
      have "reach ns1 b li (depth + 1)" by (rule build_postD(6) [OF p1])
      then have "reach (ns1 @ (new2 @ [?node])) b li (depth + 1)" by (rule reach_append)
      then show ?thesis by (simp add: n2)
    qed
    have r2: "reach (ns2 @ [?node]) b ri (depth + 1)"
    proof -
      have "reach ns2 b ri (depth + 1)" by (rule build_postD(6) [OF p2])
      then show ?thesis by (rule reach_append)
    qed
    have reach: "reach (ns2 @ [?node]) b (int (length ns2)) depth"
      using bounds r1 r2 by - (rule reach_node, simp_all)
    have inv: "tree_inv ns \<longrightarrow> tree_inv (ns2 @ [?node])"
    proof
      assume "tree_inv ns"
      then have "tree_inv ns1" by (rule build_postD(5) [OF p1])
      then have "tree_inv ns2" by (rule build_postD(5) [OF p2])
      then show "tree_inv (ns2 @ [?node])" using bounds by (rule tree_inv_snoc_node)
    qed
    have frame: "brk m2 = brk m" "\<forall>a. a \<noteq> d \<longrightarrow> heap m2 a = heap m a"
      using build_postD(3,4) [OF p1] build_postD(3,4) [OF p2] by (simp_all add: m0_def)
    have pre: "\<exists>new. ns2 @ [?node] = ns @ new \<and> new \<noteq> []"
      by (rule exI [of _ "new1 @ new2 @ [?node]"]) (simp add: n1 n2)
    show ?thesis
      unfolding eq build_post_def using pre reach inv frame by simp
  qed
qed

lemma build_recursively_root_internal:
  assumes "\<not> (r \<le> l \<or> md \<le> depth \<or> r = 0)"
    and "build_recursively md rnd d ns m l r depth = (ns', m', idx)"
  shows "0 \<le> left (ns' ! nat idx) \<and> 0 \<le> right (ns' ! nat idx) \<and> 0 < idx"
proof -
  define a where "a = nat (l + int (rnd (seed m)) mod (r - l))"
  obtain data' mid where p: "partition_std (heap m d) a (nat l) (nat r) = (data', mid)"
    by (cases "partition_std (heap m d) a (nat l) (nat r)")
  define m0 where "m0 = m\<lparr>heap := (heap m)(d := data'), seed := Suc (seed m)\<rparr>"
  obtain ns1 m1 li where b1: "build_recursively md rnd d ns m0 l (int mid) (depth + 1) = (ns1, m1, li)"
    by (cases "build_recursively md rnd d ns m0 l (int mid) (depth + 1)")
  obtain ns2 m2 ri where b2: "build_recursively md rnd d ns1 m1 (int mid) r (depth + 1) = (ns2, m2, ri)"
    by (cases "build_recursively md rnd d ns1 m1 (int mid) r (depth + 1)")
  have p1: "build_post d (max (depth + 1) md) ns m0 (depth + 1) (ns1, m1, li)"
    using build_recursively_post [of "depth + 1" "max (depth + 1) md" md d ns m0 rnd l "int mid"] assms(1)
    by (simp add: b1)
  have p2: "build_post d (max (depth + 1) md) ns1 m1 (depth + 1) (ns2, m2, ri)"
    using build_recursively_post [of "depth + 1" "max (depth + 1) md" md d ns1 m1 rnd "int mid" r] assms(1)
    by (simp add: b2)
  obtain new1 where n1: "ns1 = ns @ new1" "new1 \<noteq> []" using build_postD(1) [OF p1] by blast
  obtain new2 where n2: "ns2 = ns1 @ new2" "new2 \<noteq> []" using build_postD(1) [OF p2] by blast
  have li: "li = int (length ns1) - 1" and ri: "ri = int (length ns2) - 1"
    using build_postD(2) [OF p1] build_postD(2) [OF p2] by simp_all
  have "build_recursively md rnd d ns m l r depth =
          (ns2 @ [\<lparr>split_value = data' ! a, left = li, right = ri\<rparr>], m2, int (length ns2))"
    using build_recursively_node [OF assms(1) p [unfolded a_def] b1 [unfolded m0_def] b2]
    by (simp add: a_def)
  with assms(2) have "ns' = ns2 @ [\<lparr>split_value = data' ! a, left = li, right = ri\<rparr>]"
    and "idx = int (length ns2)" by simp_all
  moreover have "0 \<le> li" "0 \<le> ri" "0 < length ns2"
    using n1 n2 li ri by (cases new1; cases new2; simp)+
  ultimately show ?thesis by simp
qed

lemma build_recursively_returns_root_id:
  "snd (snd (build_recursively md rnd d ns m l r depth))
     = root_id (fst (build_recursively md rnd d ns m l r depth))"
proof -
  obtain ns' m' idx where b: "build_recursively md rnd d ns m l r depth = (ns', m', idx)"
    by (cases "build_recursively md rnd d ns m l r depth")
  have "build_post d (max depth md) ns m depth (ns', m', idx)"
    using build_recursively_post [of depth "max depth md" md d ns m rnd l r] by (simp add: b)
  from build_postD(2) [OF this] show ?thesis by (simp add: b root_id_def)
qed

lemma ITree_build_unfold:
  "ITree_build rnd src t m =
     (case build_recursively (max_depth t) rnd (brk m) (tree t)
             (m\<lparr>heap := (heap m)(brk m := heap m src), brk := Suc (brk m)\<rparr>)
             0 (int (length (heap m src))) 0 of
        (ns, m1, ri) \<Rightarrow> (t\<lparr>tree := ns\<rparr>, m1))"
  by (simp add: ITree_build_def vector_copy_def)

lemma ITree_build_post:
  assumes "ITree_build rnd src t m = (t', m')"
  shows "max_depth t' = max_depth t"
    and "\<exists>new. tree t' = tree t @ new \<and> new \<noteq> []"
    and "tree_inv (tree t) \<Longrightarrow> tree_inv (tree t')"
    and "0 \<le> b \<Longrightarrow> max_depth t \<le> b \<Longrightarrow> reach (tree t') b (root_id (tree t')) 0"
    and "brk m' = Suc (brk m)"
    and "\<And>a. a \<noteq> brk m \<Longrightarrow> heap m' a = heap m a"
proof -
  define m0 where "m0 = m\<lparr>heap := (heap m)(brk m := heap m src), brk := Suc (brk m)\<rparr>"
  obtain ns m1 ri where
    b: "build_recursively (max_depth t) rnd (brk m) (tree t) m0 0 (int (length (heap m src))) 0 = (ns, m1, ri)"
    by (cases "build_recursively (max_depth t) rnd (brk m) (tree t) m0 0 (int (length (heap m src))) 0")
  have t': "t' = t\<lparr>tree := ns\<rparr>" and m': "m' = m1"
    using assms by (simp_all add: ITree_build_unfold b [unfolded m0_def])
  show "max_depth t' = max_depth t" by (simp add: t')
  have post: "0 \<le> b \<Longrightarrow> max_depth t \<le> b \<Longrightarrow> build_post (brk m) b (tree t) m0 0 (ns, m1, ri)" for b
    using build_recursively_post [of 0 b "max_depth t" "brk m" "tree t" m0 rnd 0 "int (length (heap m src))"]
    by (simp add: b)
  have post0: "build_post (brk m) (max (max_depth t) 0) (tree t) m0 0 (ns, m1, ri)"
    by (rule post) simp_all
  show "\<exists>new. tree t' = tree t @ new \<and> new \<noteq> []"
    using build_postD(1) [OF post0] by (simp add: t')
  show "tree_inv (tree t')" if "tree_inv (tree t)"
    using build_postD(5) [OF post0 that] by (simp add: t')
  show "reach (tree t') b (root_id (tree t')) 0" if "0 \<le> b" "max_depth t \<le> b"
    using build_postD(6) [OF post [OF that]] build_postD(2) [OF post [OF that]]
    by (simp add: t' root_id_def)
  show "brk m' = Suc (brk m)"
    using build_postD(3) [OF post0] by (simp add: m' m0_def)
  show "heap m' a = heap m a" if "a \<noteq> brk m" for a
    using build_postD(4) [OF post0 that] that by (simp add: m' m0_def)
qed

subsection \<open>The working buffer stays a permutation\<close>

text \<open>
  The model reads and swaps buffer cells without a check, as the source does. On the
  ranges that \<open>build\<close> produces (\<open>0 \<le> left\<close>, \<open>right \<le> size\<close>) every index that
  \<open>std::partition\<close> touches lies in \<open>[first, last)\<close>, the boundary it returns lies in
  \<open>[first, last]\<close>, and the buffer keeps its length and its elements.
\<close>

lemma skip_front_le: "first \<le> lst \<Longrightarrow> skip_front data a first lst \<le> lst"
proof (induction data a first lst rule: skip_front.induct)
  case (1 data a first lst)
  then show ?case
    by (subst skip_front.simps) auto
qed

lemma skip_back_ge: "first \<le> lst \<Longrightarrow> first \<le> skip_back data a first lst"
proof (induction data a first lst rule: skip_back.induct)
  case (1 data a first lst)
  then show ?case
    by (subst skip_back.simps) auto
qed

lemma iter_swap_props:
  "i < length xs \<Longrightarrow> j < length xs \<Longrightarrow>
     mset (iter_swap xs i j) = mset xs \<and> length (iter_swap xs i j) = length xs"
  by (simp add: iter_swap_def mset_swap)

lemma partition_std_props:
  "first \<le> lst \<Longrightarrow> lst \<le> length data \<Longrightarrow> partition_std data a first lst = (data', mid) \<Longrightarrow>
     mset data' = mset data \<and> length data' = length data \<and> first \<le> mid \<and> mid \<le> lst"
proof (induction data a first lst arbitrary: data' mid rule: partition_std.induct)
  case (1 data a first lst)
  define f where "f = skip_front data a first lst"
  define l where "l = skip_back data a f (lst - 1)"
  have f: "first \<le> f" "f \<le> lst"
    using skip_front_ge [of first data a lst] skip_front_le [OF "1.prems"(1), of data a]
    by (simp_all add: f_def)
  show ?case
  proof (cases "lst \<le> f")
    case True
    then have "partition_std data a first lst = (data, f)"
      by (subst partition_std.simps) (simp add: f_def Let_def)
    with "1.prems" f show ?thesis by simp
  next
    case False
    then have fl: "f \<le> lst - 1" by simp
    have l: "f \<le> l" "l \<le> lst - 1"
      using skip_back_ge [OF fl, of data a] skip_back_le [of data a f "lst - 1"]
      by (simp_all add: l_def)
    show ?thesis
    proof (cases "l \<le> f")
      case True
      with False have "partition_std data a first lst = (data, f)"
        by (subst partition_std.simps) (simp add: f_def l_def Let_def)
      with "1.prems" f show ?thesis by simp
    next
      case lf: False
      with False have eq: "partition_std data a first lst = partition_std (iter_swap data f l) a (Suc f) l"
        by (subst partition_std.simps) (simp add: f_def l_def Let_def)
      have inb: "f < length data" "l < length data"
        using lf l False "1.prems"(2) by simp_all
      note sw = iter_swap_props [OF inb]
      have "mset data' = mset (iter_swap data f l) \<and> length data' = length (iter_swap data f l)
            \<and> Suc f \<le> mid \<and> mid \<le> l"
      proof (rule "1.IH" [OF f_def False l_def lf])
        show "Suc f \<le> l" using lf by simp
        show "l \<le> length (iter_swap data f l)" using inb sw by simp
        show "partition_std (iter_swap data f l) a (Suc f) l = (data', mid)"
          using "1.prems"(3) eq by simp
      qed
      then show ?thesis using sw f l False by auto
    qed
  qed
qed

lemma build_recursively_permutes:
  "0 \<le> l \<Longrightarrow> r \<le> int (length (heap m d)) \<Longrightarrow>
     build_recursively md rnd d ns m l r depth = (ns', m', idx) \<Longrightarrow>
     mset (heap m' d) = mset (heap m d) \<and> length (heap m' d) = length (heap m d)"
proof (induction "nat (md - depth)" arbitrary: ns m l r depth ns' m' idx)
  case 0
  then have "md \<le> depth" by simp
  then show ?case using "0.prems"(3) by (simp add: build_recursively_leaf)
next
  case (Suc k)
  show ?case
  proof (cases "r \<le> l \<or> md \<le> depth \<or> r = 0")
    case True
    then show ?thesis using Suc.prems(3) by (simp add: build_recursively_leaf)
  next
    case False
    define a where "a = nat (l + int (rnd (seed m)) mod (r - l))"
    obtain data' mid where p: "partition_std (heap m d) a (nat l) (nat r) = (data', mid)"
      by (cases "partition_std (heap m d) a (nat l) (nat r)")
    define m0 where "m0 = m\<lparr>heap := (heap m)(d := data'), seed := Suc (seed m)\<rparr>"
    obtain ns1 m1 li where b1: "build_recursively md rnd d ns m0 l (int mid) (depth + 1) = (ns1, m1, li)"
      by (cases "build_recursively md rnd d ns m0 l (int mid) (depth + 1)")
    obtain ns2 m2 ri where b2: "build_recursively md rnd d ns1 m1 (int mid) r (depth + 1) = (ns2, m2, ri)"
      by (cases "build_recursively md rnd d ns1 m1 (int mid) r (depth + 1)")
    have k: "k = nat (md - (depth + 1))"
      using Suc.hyps(2) by simp
    have rng: "nat l \<le> nat r" "nat r \<le> length (heap m d)"
      using False Suc.prems(1,2) by linarith+
    have pp: "mset data' = mset (heap m d)" "length data' = length (heap m d)" "nat l \<le> mid" "mid \<le> nat r"
      using partition_std_props [OF rng p] by simp_all
    have h0: "heap m0 d = data'" by (simp add: m0_def)
    have rng1: "int mid \<le> int (length (heap m0 d))"
      using pp rng h0 by simp
    have s1: "mset (heap m1 d) = mset (heap m0 d) \<and> length (heap m1 d) = length (heap m0 d)"
      by (rule Suc.hyps(1) [OF k Suc.prems(1) rng1 b1])
    have rng2: "0 \<le> int mid" "r \<le> int (length (heap m1 d))"
      using Suc.prems(2) pp h0 s1 by simp_all
    have s2: "mset (heap m2 d) = mset (heap m1 d) \<and> length (heap m2 d) = length (heap m1 d)"
      by (rule Suc.hyps(1) [OF k rng2 b2])
    have "build_recursively md rnd d ns m l r depth =
          (ns2 @ [\<lparr>split_value = data' ! a, left = li, right = ri\<rparr>], m2, int (length ns2))"
      using build_recursively_node [OF False p [unfolded a_def] b1 [unfolded m0_def] b2]
      by (simp add: a_def)
    with Suc.prems(3) have "m' = m2" by simp
    then show ?thesis using s1 s2 pp h0 by simp
  qed
qed

lemma ITree_build_permutes:
  "mset (heap (snd (ITree_build rnd src t m)) (brk m)) = mset (heap m src)"
proof -
  define m0 where "m0 = m\<lparr>heap := (heap m)(brk m := heap m src), brk := Suc (brk m)\<rparr>"
  obtain ns m1 ri where
    b: "build_recursively (max_depth t) rnd (brk m) (tree t) m0 0 (int (length (heap m src))) 0 = (ns, m1, ri)"
    by (cases "build_recursively (max_depth t) rnd (brk m) (tree t) m0 0 (int (length (heap m src))) 0")
  have "mset (heap m1 (brk m)) = mset (heap m0 (brk m))"
    using build_recursively_permutes [OF _ _ b] by (simp add: m0_def)
  then show ?thesis
    by (simp add: ITree_build_unfold b [unfolded m0_def] m0_def)
qed

text \<open>
  C2: after \<open>build\<close> the node vector is not empty and \<open>root_id()\<close> is the index of its last
  node, which is also what every call of \<open>build_recursively\<close> returns; every node is a leaf
  (\<open>left < 0\<close> and \<open>right < 0\<close>) or has both children at strictly earlier indices.
\<close>

theorem build_tree_shape:
  assumes "ITree_build rnd src t m = (t', m')" and "tree_inv (tree t)"
  shows "tree t' \<noteq> []
     \<and> root_id (tree t') = int (length (tree t')) - 1
     \<and> snd (snd (build_recursively md rnd' d ns m0 l r depth))
         = root_id (fst (build_recursively md rnd' d ns m0 l r depth))
     \<and> (\<forall>i < length (tree t').
           (left (tree t' ! i) < 0 \<and> right (tree t' ! i) < 0)
           \<or> (0 \<le> left (tree t' ! i) \<and> left (tree t' ! i) < int i
               \<and> 0 \<le> right (tree t' ! i) \<and> right (tree t' ! i) < int i))"
proof -
  have "tree t' \<noteq> []" using ITree_build_post(2) [OF assms(1)] by auto
  moreover have "tree_inv (tree t')" using ITree_build_post(3) [OF assms] .
  then have "\<forall>i < length (tree t').
           (left (tree t' ! i) < 0 \<and> right (tree t' ! i) < 0)
           \<or> (0 \<le> left (tree t' ! i) \<and> left (tree t' ! i) < int i
               \<and> 0 \<le> right (tree t' ! i) \<and> right (tree t' ! i) < int i)"
    unfolding tree_inv_def by fastforce
  ultimately show ?thesis
    by (simp add: root_id_def build_recursively_returns_root_id [unfolded root_id_def])
qed

theorem build_tree_shape_witness:
  "tree_inv []
   \<and> tree (fst (ITree_build (\<lambda>_. 0) 0 (ITree_new 1) (caller_machine [5])))
       = [default_node, default_node, \<lparr>split_value = 5, left = 0, right = 1\<rparr>]
   \<and> root_id [default_node, default_node, \<lparr>split_value = 5, left = 0, right = 1\<rparr>] = 2
   \<and> left default_node < 0 \<and> right default_node < 0
   \<and> 0 \<le> left \<lparr>split_value = 5, left = 0, right = 1\<rparr>
   \<and> left \<lparr>split_value = 5, left = 0, right = 1\<rparr> < 2
   \<and> 0 \<le> right \<lparr>split_value = 5, left = 0, right = 1\<rparr>
   \<and> right \<lparr>split_value = 5, left = 0, right = 1\<rparr> < 2"
proof -
  have inv: "tree_inv (tree (ITree_new 1))" by (simp add: tree_inv_def ITree_new_def)
  have b: "ITree_build (\<lambda>_. 0) 0 (ITree_new 1) (caller_machine [5])
         = (fst (ITree_build (\<lambda>_. 0) 0 (ITree_new 1) (caller_machine [5])),
            snd (ITree_build (\<lambda>_. 0) 0 (ITree_new 1) (caller_machine [5])))" by simp
  have t: "tree (fst (ITree_build (\<lambda>_. 0) 0 (ITree_new 1) (caller_machine [5])))
        = [default_node, default_node, \<lparr>split_value = 5, left = 0, right = 1\<rparr>]"
    by (simp add: eval_defs)
  show ?thesis
    using build_tree_shape [OF b inv] inv
    unfolding t by (simp add: ITree_new_def All_less_Suc default_node_def)
qed

text \<open>
  C6 (amended): for a tree built from a non-empty sequence with \<open>max_depth \<ge> 1\<close>,
  \<open>path_length(value, root_id(), 0)\<close> returns; the result is at least \<open>0\<close> and at most
  \<open>max_depth - 1\<close>, unless assertions are enabled and the descent stops at the failed
  assertion \<open>node_index > 0\<close>.
\<close>

theorem path_length_bounds:
  assumes "ITree_build rnd src t m = (t', m')" and "heap m src \<noteq> []" and "1 \<le> max_depth t"
  shows "\<exists>res. path_length ndebug (tree t') v (root_id (tree t')) 0 = Some res
     \<and> (case res of
           Inl e \<Rightarrow> \<not> ndebug \<and> e = AssertionFailed
         | Inr y \<Rightarrow> 0 \<le> y \<and> y \<le> real_of_int (max_depth t) - 1)"
proof -
  define m0 where "m0 = m\<lparr>heap := (heap m)(brk m := heap m src), brk := Suc (brk m)\<rparr>"
  obtain ns m1 ri where
    b: "build_recursively (max_depth t) rnd (brk m) (tree t) m0 0 (int (length (heap m src))) 0 = (ns, m1, ri)"
    by (cases "build_recursively (max_depth t) rnd (brk m) (tree t) m0 0 (int (length (heap m src))) 0")
  have t': "tree t' = ns"
    using assms(1) by (auto simp add: ITree_build_unfold b [unfolded m0_def])
  have ri: "ri = root_id ns"
    using build_recursively_returns_root_id [of "max_depth t" rnd "brk m" "tree t" m0 0 "int (length (heap m src))" 0]
    by (simp add: b)
  have nl: "\<not> (int (length (heap m src)) \<le> 0 \<or> max_depth t \<le> 0 \<or> int (length (heap m src)) = 0)"
    using assms(2,3) by simp
  have internal: "0 \<le> left (ns ! nat ri)" "0 \<le> right (ns ! nat ri)" "0 < ri"
    using build_recursively_root_internal [OF nl b] by simp_all
  have rch: "reach ns (max_depth t) ri 0"
    using ITree_build_post(4) [OF assms(1), of "max_depth t"] assms(3) by (simp add: t' ri)
  then have kids: "reach ns (max_depth t) (left (ns ! nat ri)) 1" "reach ns (max_depth t) (right (ns ! nat ri)) 1"
    and inb: "ri < int (length ns)"
    using internal by (auto elim: reach.cases)
  have eq: "path_length ndebug ns v ri 0 =
     (if v < split_value (ns ! nat ri) \<and> 0 \<le> left (ns ! nat ri)
        then path_length ndebug ns v (left (ns ! nat ri)) (0 + 1)
      else if 0 \<le> right (ns ! nat ri)
        then path_length ndebug ns v (right (ns ! nat ri)) (0 + 1)
      else Some (Inr (real_of_int (0 - 1))))"
    using internal(3) inb by (intro path_length_in_range) simp_all
  have "path_ok ndebug 0 (max_depth t - 1) (path_length ndebug ns v ri 0)"
    using reach_path_length [OF kids(1), of ndebug v] reach_path_length [OF kids(2), of ndebug v] internal
    by (simp add: eq)
  then show ?thesis
    by (auto simp add: path_ok_def t' ri split: option.splits sum.splits)
qed

theorem path_length_bounds_witness:
  "heap (caller_machine [5]) 0 \<noteq> [] \<and> 1 \<le> max_depth (ITree_new 1)
   \<and> path_length False (tree (fst (ITree_build (\<lambda>_. 0) 0 (ITree_new 1) (caller_machine [5])))) 7
        (root_id (tree (fst (ITree_build (\<lambda>_. 0) 0 (ITree_new 1) (caller_machine [5]))))) 0
       = Some (Inr 0)
   \<and> (0::real) \<le> 0 \<and> (0::real) \<le> real_of_int (max_depth (ITree_new 1)) - 1"
proof -
  have b: "ITree_build (\<lambda>_. 0) 0 (ITree_new 1) (caller_machine [5])
         = (fst (ITree_build (\<lambda>_. 0) 0 (ITree_new 1) (caller_machine [5])),
            snd (ITree_build (\<lambda>_. 0) 0 (ITree_new 1) (caller_machine [5])))" by simp
  have h: "heap (caller_machine [5]) 0 \<noteq> []" "1 \<le> max_depth (ITree_new 1)"
    by (simp_all add: caller_machine_def ITree_new_def)
  have e: "path_length False (tree (fst (ITree_build (\<lambda>_. 0) 0 (ITree_new 1) (caller_machine [5])))) 7
        (root_id (tree (fst (ITree_build (\<lambda>_. 0) 0 (ITree_new 1) (caller_machine [5]))))) 0
       = Some (Inr 0)"
    by (simp add: eval_defs)
  show ?thesis
    using path_length_bounds [OF b h, of False 7] h e by (simp add: ITree_new_def)
qed

theorem path_length_negative_on_empty_sequence:
  "path_length True (tree (fst (ITree_build (\<lambda>_. 0) 0 (ITree_new 1) (caller_machine [])))) 0
        (root_id (tree (fst (ITree_build (\<lambda>_. 0) 0 (ITree_new 1) (caller_machine []))))) 0
       = Some (Inr (- 1))
   \<and> path_length False (tree (fst (ITree_build (\<lambda>_. 0) 0 (ITree_new 1) (caller_machine [])))) 0
        (root_id (tree (fst (ITree_build (\<lambda>_. 0) 0 (ITree_new 1) (caller_machine []))))) 0
       = Some (Inl AssertionFailed)
   \<and> \<not> (0 :: real) \<le> - 1"
  by (simp add: eval_defs)

section \<open>Building a forest\<close>

lemma shuffle_frame:
  assumes "shuffle rnd a m = Inr m'"
  shows "brk m' = brk m" and "\<And>a'. a' \<noteq> a \<Longrightarrow> heap m' a' = heap m a'"
  using assms by (auto simp: shuffle_def split: sum.splits prod.splits)

lemma build_trees_post:
  assumes "build_trees rnd data ts m = Inr (ts', m')" and "data < brk m"
  shows "brk m \<le> brk m' \<and> (\<forall>a < brk m. a \<noteq> data \<longrightarrow> heap m' a = heap m a)
     \<and> length ts' = length ts \<and> (\<forall>t \<in> set ts'. built t)"
  using assms
proof (induction ts arbitrary: m ts' m')
  case Nil
  then show ?case by simp
next
  case (Cons t ts)
  obtain m1 where s: "shuffle rnd data m = Inr m1"
    using Cons.prems(1) by (cases "shuffle rnd data m") simp_all
  obtain t1 m2 where b: "ITree_build rnd data t m1 = (t1, m2)"
    by (cases "ITree_build rnd data t m1")
  obtain ts1 m3 where r: "build_trees rnd data ts m2 = Inr (ts1, m3)"
    using Cons.prems(1) by (cases "build_trees rnd data ts m2") (auto simp: s b)
  have res: "ts' = t1 # ts1" "m' = m3"
    using Cons.prems(1) by (simp_all add: s b r)
  have brk1: "brk m1 = brk m" and h1: "\<And>a. a \<noteq> data \<Longrightarrow> heap m1 a = heap m a"
    using shuffle_frame [OF s] by simp_all
  have brk2: "brk m2 = Suc (brk m1)" and h2: "\<And>a. a \<noteq> brk m1 \<Longrightarrow> heap m2 a = heap m1 a"
    using ITree_build_post(5,6) [OF b] by simp_all
  have "data < brk m2" using Cons.prems(2) brk1 brk2 by simp
  from Cons.IH [OF r this]
  have ih: "brk m2 \<le> brk m3" "\<forall>a < brk m2. a \<noteq> data \<longrightarrow> heap m3 a = heap m2 a"
    "length ts1 = length ts" "\<forall>t \<in> set ts1. built t" by simp_all
  have "built t1"
    unfolding built_def
    using ITree_build_post(4) [OF b, of "max (max_depth t) 0"] ITree_build_post(1) [OF b] by simp
  moreover have "heap m3 a = heap m a" if "a < brk m" "a \<noteq> data" for a
    using ih(2) h2 [of a] h1 [of a] that brk1 brk2 by simp
  ultimately show ?case
    using ih brk1 brk2 by (simp add: res)
qed

lemma IForest_build_post:
  assumes "IForest_build rnd src f m = Inr (f', m')"
  shows "\<And>a. a < brk m \<Longrightarrow> heap m' a = heap m a"
    and "length (trees f') = length (trees f)"
    and "\<And>t. t \<in> set (trees f') \<Longrightarrow> built t"
proof -
  define m0 where "m0 = m\<lparr>heap := (heap m)(brk m := heap m src), brk := Suc (brk m)\<rparr>"
  obtain ts m1 where r: "build_trees rnd (brk m) (trees f) m0 = Inr (ts, m1)"
    using assms by (cases "build_trees rnd (brk m) (trees f) m0")
      (auto simp: IForest_build_def vector_copy_def m0_def)
  have res: "f' = f\<lparr>trees := ts\<rparr>" "m' = m1"
    using assms r by (simp_all add: IForest_build_def vector_copy_def m0_def)
  have "brk m < brk m0" by (simp add: m0_def)
  from build_trees_post [OF r this]
  have p: "\<forall>a < brk m0. a \<noteq> brk m \<longrightarrow> heap m1 a = heap m0 a" "length ts = length (trees f)"
    "\<forall>t \<in> set ts. built t" by simp_all
  show "heap m' a = heap m a" if "a < brk m" for a
    using p(1) that by (simp add: res m0_def)
  show "length (trees f') = length (trees f)" using p(2) by (simp add: res)
  show "built t" if "t \<in> set (trees f')" for t using p(3) that by (simp add: res)
qed


text \<open>
  On a non-empty sequence (of fewer than \<open>2^64\<close> elements) \<open>shuffle\<close> stays inside the
  vector and \<open>IForest::build\<close> completes.
\<close>

lemma shuffle_loop_succeeds:
  "unat i < length vec \<Longrightarrow> length vec < 2 ^ 64 \<Longrightarrow>
     \<exists>vec' k'. shuffle_loop rnd vec k i = Inr (vec', k') \<and> length vec' = length vec"
proof (induction rnd vec k i rule: shuffle_loop.induct)
  case (1 rnd vec k i)
  show ?case
  proof (cases "0 < i")
    case False
    then show ?thesis by (subst shuffle_loop.simps) simp
  next
    case True
    have u: "unat (i + 1) = unat i + 1"
      using "1.prems" by (simp add: unat_word_ariths)
    have n1: "i + 1 \<noteq> 0"
    proof
      assume "i + 1 = 0"
      then have "unat (i + 1) = 0" by simp
      with u show False by simp
    qed
    define j where "j = (word_of_nat (rnd k) :: 64 word) mod (i + 1)"
    have "j < i + 1" unfolding j_def using n1 by (simp add: word_mod_less_divisor word_gt_0)
    then have "unat j < unat (i + 1)" by (simp add: word_less_nat_alt)
    then have jb: "unat j < length vec" using "1.prems"(1) u by simp
    have len: "length (iter_swap vec (unat i) (unat j)) = length vec" by (simp add: iter_swap_def)
    have "unat (i - 1) < length (iter_swap vec (unat i) (unat j))"
      using "1.prems"(1) True by (simp add: len unat_minus_one unat_gt_0 word_gt_0)
    from "1.IH" [OF True n1 j_def _ this] jb "1.prems"
    obtain vec' k' where "shuffle_loop rnd (iter_swap vec (unat i) (unat j)) (Suc k) (i - 1) = Inr (vec', k')"
      "length vec' = length vec" by (auto simp: len)
    then show ?thesis
      using True n1 jb "1.prems"(1) by (subst shuffle_loop.simps) (simp add: j_def Let_def)
  qed
qed

lemma shuffle_succeeds:
  assumes "0 < length (heap m a)" and "length (heap m a) < 2 ^ 64"
  shows "\<exists>m'. shuffle rnd a m = Inr m' \<and> length (heap m' a) = length (heap m a)
           \<and> brk m' = brk m"
proof -
  define i where "i = (word_of_nat (length (heap m a)) :: 64 word) - 1"
  have "unat (word_of_nat (length (heap m a)) :: 64 word) = length (heap m a)"
    using assms(2) by (simp add: unat_of_nat)
  moreover from this assms(1) have "(word_of_nat (length (heap m a)) :: 64 word) \<noteq> 0"
    by (metis less_numeral_extra(3) unat_0)
  ultimately have "unat i < length (heap m a)"
    using assms(1) by (simp add: i_def unat_minus_one)
  from shuffle_loop_succeeds [OF this assms(2), of rnd "seed m"]
  obtain vec' k' where "shuffle_loop rnd (heap m a) (seed m) i = Inr (vec', k')"
    "length vec' = length (heap m a)" by blast
  then show ?thesis by (simp add: shuffle_def i_def)
qed

lemma build_trees_succeeds:
  assumes "data < brk m" and "0 < length (heap m data)" and "length (heap m data) < 2 ^ 64"
  shows "\<exists>ts' m'. build_trees rnd data ts m = Inr (ts', m')"
  using assms
proof (induction ts arbitrary: m)
  case Nil
  then show ?case by simp
next
  case (Cons t ts)
  obtain m1 where s: "shuffle rnd data m = Inr m1" "length (heap m1 data) = length (heap m data)"
    "brk m1 = brk m"
    using shuffle_succeeds [OF Cons.prems(2,3), of rnd] by blast
  obtain t1 m2 where b: "ITree_build rnd data t m1 = (t1, m2)"
    by (cases "ITree_build rnd data t m1")
  have "heap m2 data = heap m1 data" "brk m2 = Suc (brk m1)"
    using ITree_build_post(5,6) [OF b] Cons.prems(1) s(3) by simp_all
  then have "data < brk m2" "0 < length (heap m2 data)" "length (heap m2 data) < 2 ^ 64"
    using Cons.prems s by simp_all
  from Cons.IH [OF this]
  obtain ts1 m3 where "build_trees rnd data ts m2 = Inr (ts1, m3)" by blast
  then show ?case by (simp add: s(1) b)
qed

lemma IForest_build_succeeds:
  assumes "heap m src \<noteq> []" and "length (heap m src) < 2 ^ 64"
  shows "\<exists>f' m'. IForest_build rnd src f m = Inr (f', m')"
proof -
  define m0 where "m0 = m\<lparr>heap := (heap m)(brk m := heap m src), brk := Suc (brk m)\<rparr>"
  have "brk m < brk m0" "0 < length (heap m0 (brk m))" "length (heap m0 (brk m)) < 2 ^ 64"
    using assms by (simp_all add: m0_def)
  from build_trees_succeeds [OF this, of rnd "trees f"]
  obtain ts m1 where "build_trees rnd (brk m) (trees f) m0 = Inr (ts, m1)" by blast
  then show ?thesis
    by (simp add: IForest_build_def vector_copy_def m0_def)
qed

text \<open>
  \<open>shuffle\<close> permutes the vector it is given, and \<open>IForest::build\<close> allocates one buffer
  for its copy and one more for each tree.
\<close>

lemma shuffle_loop_permutes:
  "shuffle_loop rnd vec k i = Inr (vec', k') \<Longrightarrow> mset vec' = mset vec"
proof (induction rnd vec k i arbitrary: vec' k' rule: shuffle_loop.induct)
  case (1 rnd vec k i)
  show ?case
  proof (cases "0 < i")
    case False
    then have "shuffle_loop rnd vec k i = Inr (vec, k)" by (subst shuffle_loop.simps) simp
    with "1.prems" show ?thesis by simp
  next
    case True
    define j where "j = (word_of_nat (rnd k) :: 64 word) mod (i + 1)"
    have n1: "i + 1 \<noteq> 0"
    proof
      assume "i + 1 = 0"
      with True have "shuffle_loop rnd vec k i = Inl DivisionByZero" by (subst shuffle_loop.simps) simp
      with "1.prems" show False by simp
    qed
    have inb: "unat i < length vec \<and> unat j < length vec"
    proof (rule ccontr)
      assume "\<not> (unat i < length vec \<and> unat j < length vec)"
      with True n1 have "shuffle_loop rnd vec k i = Inl OutOfBounds"
        by (subst shuffle_loop.simps) (auto simp add: j_def Let_def)
      with "1.prems" show False by simp
    qed
    have "shuffle_loop rnd vec k i = shuffle_loop rnd (iter_swap vec (unat i) (unat j)) (Suc k) (i - 1)"
      using True n1 inb by (subst shuffle_loop.simps) (simp add: j_def Let_def)
    with "1.prems" have "shuffle_loop rnd (iter_swap vec (unat i) (unat j)) (Suc k) (i - 1) = Inr (vec', k')"
      by simp
    from "1.IH" [OF True n1 j_def inb this]
    show ?thesis using iter_swap_props [of "unat i" vec "unat j"] inb by simp
  qed
qed

lemma shuffle_permutes:
  "shuffle rnd a m = Inr m' \<Longrightarrow> mset (heap m' a) = mset (heap m a)"
  by (auto simp: shuffle_def split: sum.splits prod.splits dest: shuffle_loop_permutes)

lemma build_trees_buffers:
  assumes "build_trees rnd data ts m = Inr (ts', m')" and "data < brk m"
  shows "mset (heap m' data) = mset (heap m data) \<and> brk m' = brk m + length ts
     \<and> (\<forall>i < length ts. mset (heap m' (brk m + i)) = mset (heap m data))"
  using assms
proof (induction ts arbitrary: m ts' m')
  case Nil
  then show ?case by simp
next
  case (Cons t ts)
  obtain m1 where s: "shuffle rnd data m = Inr m1"
    using Cons.prems(1) by (cases "shuffle rnd data m") simp_all
  obtain t1 m2 where b: "ITree_build rnd data t m1 = (t1, m2)"
    by (cases "ITree_build rnd data t m1")
  obtain ts1 m3 where r: "build_trees rnd data ts m2 = Inr (ts1, m3)"
    using Cons.prems(1) by (cases "build_trees rnd data ts m2") (auto simp: s b)
  have res: "m' = m3" using Cons.prems(1) by (simp add: s b r)
  have brk1: "brk m1 = brk m" using shuffle_frame(1) [OF s] .
  have p1: "mset (heap m1 data) = mset (heap m data)" by (rule shuffle_permutes [OF s])
  have brk2: "brk m2 = Suc (brk m)" using ITree_build_post(5) [OF b] brk1 by simp
  have d2: "heap m2 data = heap m1 data"
    using ITree_build_post(6) [OF b, of data] Cons.prems(2) brk1 by simp
  have own: "mset (heap m2 (brk m)) = mset (heap m1 data)"
    using ITree_build_permutes [of rnd data t m1] by (simp add: b brk1)
  have lt: "data < brk m2" using Cons.prems(2) brk2 by simp
  from Cons.IH [OF r lt]
  have ih: "mset (heap m3 data) = mset (heap m2 data)" "brk m3 = brk m2 + length ts"
    "\<forall>i < length ts. mset (heap m3 (brk m2 + i)) = mset (heap m2 data)" by simp_all
  have keep: "heap m3 (brk m) = heap m2 (brk m)"
    using build_trees_post [OF r lt] Cons.prems(2) brk2 by simp
  have "mset (heap m3 (brk m + i)) = mset (heap m data)" if "i < length (t # ts)" for i
  proof (cases i)
    case 0
    then show ?thesis using keep own p1 by simp
  next
    case (Suc i')
    then have "i' < length ts" using that by simp
    with ih(3) have "mset (heap m3 (brk m2 + i')) = mset (heap m2 data)" by simp
    then show ?thesis using Suc brk2 d2 p1 by simp
  qed
  then show ?case using ih(1,2) d2 p1 brk2 by (simp add: res)
qed

lemma IForest_build_buffers:
  assumes "IForest_build rnd src f m = Inr (f', m')"
  shows "mset (heap m' (brk m)) = mset (heap m src)"
    and "brk m' = Suc (brk m) + length (trees f)"
    and "\<forall>i < length (trees f). mset (heap m' (Suc (brk m) + i)) = mset (heap m src)"
proof -
  define m0 where "m0 = m\<lparr>heap := (heap m)(brk m := heap m src), brk := Suc (brk m)\<rparr>"
  obtain ts m1 where r: "build_trees rnd (brk m) (trees f) m0 = Inr (ts, m1)"
    using assms by (cases "build_trees rnd (brk m) (trees f) m0")
      (auto simp: IForest_build_def vector_copy_def m0_def)
  have res: "m' = m1"
    using assms r by (simp add: IForest_build_def vector_copy_def m0_def)
  have "brk m < brk m0" by (simp add: m0_def)
  from build_trees_buffers [OF r this]
  show "mset (heap m' (brk m)) = mset (heap m src)"
    and "brk m' = Suc (brk m) + length (trees f)"
    and "\<forall>i < length (trees f). mset (heap m' (Suc (brk m) + i)) = mset (heap m src)"
    by (simp_all add: res m0_def)
qed

text \<open>
  C9: \<open>ITree::build\<close> and \<open>IForest::build\<close> work on buffers they allocate themselves. Every
  buffer that exists when \<open>build\<close> is called, the caller's sequence among them, has the same
  contents afterwards. \<open>ITree::build\<close> partitions the fresh buffer at \<open>brk m\<close>, which holds
  the elements of the caller's sequence. \<open>IForest::build\<close>, when it completes, has allocated
  one buffer for its copy (at \<open>brk m\<close>, the one it shuffles) and one for each tree, and each
  of them holds the elements of the caller's sequence; on a non-empty sequence it completes.
\<close>

theorem build_leaves_buffers_unchanged:
  assumes "a < brk m"
  shows "heap (snd (ITree_build rnd src t m)) a = heap m a
     \<and> mset (heap (snd (ITree_build rnd src t m)) (brk m)) = mset (heap m src)
     \<and> (IForest_build rnd src f m = Inr (f', m') \<longrightarrow>
           heap m' a = heap m a
         \<and> mset (heap m' (brk m)) = mset (heap m src)
         \<and> brk m' = Suc (brk m) + length (trees f)
         \<and> (\<forall>i < length (trees f). mset (heap m' (Suc (brk m) + i)) = mset (heap m src)))
     \<and> (heap m src \<noteq> [] \<and> length (heap m src) < 2 ^ 64 \<longrightarrow>
           (\<exists>f'' m''. IForest_build rnd src f m = Inr (f'', m'')))"
proof -
  have "ITree_build rnd src t m = (fst (ITree_build rnd src t m), snd (ITree_build rnd src t m))"
    by simp
  from ITree_build_post(6) [OF this, of a] assms
  have 1: "heap (snd (ITree_build rnd src t m)) a = heap m a" by simp
  have 2: "mset (heap (snd (ITree_build rnd src t m)) (brk m)) = mset (heap m src)"
    by (rule ITree_build_permutes)
  have 3: "heap m' a = heap m a
         \<and> mset (heap m' (brk m)) = mset (heap m src)
         \<and> brk m' = Suc (brk m) + length (trees f)
         \<and> (\<forall>i < length (trees f). mset (heap m' (Suc (brk m) + i)) = mset (heap m src))"
    if "IForest_build rnd src f m = Inr (f', m')"
    using IForest_build_post(1) [OF that assms] IForest_build_buffers [OF that] by simp
  have 4: "\<exists>f'' m''. IForest_build rnd src f m = Inr (f'', m'')"
    if "heap m src \<noteq> [] \<and> length (heap m src) < 2 ^ 64"
    using IForest_build_succeeds [of m src rnd f] that by simp
  show ?thesis using 1 2 3 4 by blast
qed

theorem build_leaves_buffers_unchanged_witness:
  "0 < brk (caller_machine [3, 2, 1])
   \<and> heap (snd (ITree_build (\<lambda>_. 0) 0 (ITree_new 1) (caller_machine [3, 2, 1]))) 0 = [3, 2, 1]
   \<and> heap (snd (ITree_build (\<lambda>_. 0) 0 (ITree_new 1) (caller_machine [3, 2, 1]))) (Suc 0) = [1, 2, 3]
   \<and> (case IForest_build (\<lambda>_. 0) 0 (IForest_new 1 1) (caller_machine [3, 2, 1]) of
         Inl e \<Rightarrow> False
       | Inr (f', m') \<Rightarrow>
           heap m' 0 = [3, 2, 1] \<and> heap m' (Suc 0) = [2, 1, 3] \<and> heap m' (Suc (Suc 0)) = [1, 2, 3]
           \<and> mset (heap m' (Suc 0)) = mset (heap (caller_machine [3, 2, 1]) 0)
           \<and> mset (heap m' (Suc (Suc 0))) = mset (heap (caller_machine [3, 2, 1]) 0)
           \<and> brk m' = 3)"
proof -
  have a: "0 < brk (caller_machine [3, 2, 1])" by (simp add: caller_machine_def)
  obtain f' m' where
    fb: "IForest_build (\<lambda>_. 0) 0 (IForest_new 1 1) (caller_machine [3, 2, 1]) = Inr (f', m')"
    by (simp add: eval_defs)
  then have hs: "heap m' 0 = [3, 2, 1]" "heap m' (Suc 0) = [2, 1, 3]" "heap m' (Suc (Suc 0)) = [1, 2, 3]"
    by (auto simp add: eval_defs)
  note th = build_leaves_buffers_unchanged [OF a, of "\<lambda>_. 0" 0 "ITree_new 1" "IForest_new 1 1" f' m']
  have t1: "heap (snd (ITree_build (\<lambda>_. 0) 0 (ITree_new 1) (caller_machine [3, 2, 1]))) 0 = [3, 2, 1]"
    using th by (simp add: caller_machine_def)
  have t2: "heap (snd (ITree_build (\<lambda>_. 0) 0 (ITree_new 1) (caller_machine [3, 2, 1]))) (Suc 0) = [1, 2, 3]"
    by (simp add: eval_defs)
  from th fb have f: "mset (heap m' (Suc 0)) = mset (heap (caller_machine [3, 2, 1]) 0)"
    "brk m' = 3" "mset (heap m' (Suc (Suc 0))) = mset (heap (caller_machine [3, 2, 1]) 0)"
    by (simp_all add: caller_machine_def IForest_new_def)
  show ?thesis
    unfolding fb using a t1 t2 hs f by simp
qed

text \<open>
  C4 (the code breaks it): \<open>IForest::build\<close> on an empty sequence, in a forest with a tree,
  calls \<open>shuffle\<close> on the empty vector, whose counter starts at \<open>size_t(0) - 1 = 2^64 - 1\<close>:
  the loop body runs and computes \<open>rand() % (i + 1)\<close> with \<open>i + 1 = 0\<close>.
\<close>

theorem build_empty_sequence_fails:
  "IForest_build rnd 0 (IForest_new (Suc k) md) (caller_machine []) = Inl DivisionByZero"
  by (simp add: eval_defs)

section \<open>Scoring\<close>

lemma sum_path_lengths_values:
  "\<forall>t \<in> set ts. path_length ndebug (tree t) v (root_id (tree t)) 0 = Some (Inr (p t))
   \<Longrightarrow> sum_path_lengths ndebug v ts acc = Some (Inr (acc + (\<Sum>t\<leftarrow>ts. p t)))"
  by (induction ts arbitrary: acc) (auto simp: add.assoc)

lemma calc_depth_pos:
  assumes "1 < n" shows "0 < calc_depth n"
proof -
  define t where "t = real_of_int (n - 2)"
  define q where "q = (t + 1) / (t + 2)"
  define a where "a = t / (1 + t)"
  define L where "L = ln (t + 1)"
  define g where "g = (0.5772156649 :: real)"
  have t0: "0 \<le> t" using assms by (simp add: t_def)
  have n1: "real_of_int (n - 1) = t + 1" and n: "real_of_int n = t + 2" by (simp_all add: t_def)
  have l: "a \<le> L" unfolding a_def L_def using t0 by (rule ln_add1_ge)
  have "q - a = 1 / ((t + 2) * (1 + t))"
    using t0 by (simp add: q_def a_def field_simps)
  also have "\<dots> \<le> 1 / 2"
  proof -
    have "2 \<le> (t + 2) * (1 + t)" using t0 by (simp add: algebra_simps)
    then show ?thesis by (simp add: field_simps)
  qed
  finally have qa: "q - a \<le> 1 / 2" .
  have gh: "1 / 2 < g" by (simp add: g_def)
  have "q < L + g" using qa gh l by linarith
  then have "0 < 2 * (L + g) - 2 * q" by simp
  moreover have "calc_depth n = 2 * (L + g) - 2 * q"
    using assms by (simp add: calc_depth_def n1 n q_def g_def L_def add_ac)
  ultimately show ?thesis by simp
qed

lemma score_with_values:
  assumes "\<forall>t \<in> set (trees f). path_length ndebug (tree t) v (root_id (tree t)) 0 = Some (Inr (p t))"
  shows "IForest_score max_exp ndebug v n (f, m) =
     Some (Inr (fpow2 max_exp (fdiv (fdiv (Finite (\<Sum>t\<leftarrow>trees f. p t)) (real (length (trees f)))) (calc_depth n)), f, m))"
  using sum_path_lengths_values [OF assms, of 0] by (simp add: IForest_score_def)













text \<open>
  C7 (amended): \<open>calc_depth n\<close> is exactly \<open>0\<close> for \<open>n \<le> 1\<close> and positive for \<open>n > 1\<close>. For
  \<open>n \<le> 1\<close>, \<open>score\<close> divides by that zero and reports no error: the result is \<open>+Inf\<close> when
  the sum of the path lengths is positive, NaN when it is zero, and the finite value \<open>0\<close>
  when it is negative. A forest without trees divides \<open>0\<close> by its tree count \<open>0\<close> and
  returns NaN for every \<open>n\<close>.
\<close>

theorem score_division_by_zero:
  "(n \<le> 1 \<longrightarrow> calc_depth n = 0)
   \<and> (1 < n \<longrightarrow> 0 < calc_depth n)
   \<and> (n \<le> 1 \<and> trees f \<noteq> []
        \<and> (\<forall>t \<in> set (trees f). path_length ndebug (tree t) v (root_id (tree t)) 0 = Some (Inr (p t))) \<longrightarrow>
        IForest_score max_exp ndebug v n (f, m) =
          Some (Inr (if 0 < (\<Sum>t\<leftarrow>trees f. p t) then PosInf
                     else if (\<Sum>t\<leftarrow>trees f. p t) < 0 then Finite 0 else NaN, f, m)))
   \<and> (trees f = [] \<longrightarrow> IForest_score max_exp ndebug v n (f, m) = Some (Inr (NaN, f, m)))"
proof (intro conjI impI)
  show "calc_depth n = 0" if "n \<le> 1" using that by (simp add: calc_depth_def)
  show "0 < calc_depth n" if "1 < n" using that by (rule calc_depth_pos)
  show "IForest_score max_exp ndebug v n (f, m) = Some (Inr (NaN, f, m))" if "trees f = []"
    using that by (simp add: IForest_score_def)
next
  assume a: "n \<le> 1 \<and> trees f \<noteq> []
        \<and> (\<forall>t \<in> set (trees f). path_length ndebug (tree t) v (root_id (tree t)) 0 = Some (Inr (p t)))"
  then have p: "\<forall>t \<in> set (trees f). path_length ndebug (tree t) v (root_id (tree t)) 0 = Some (Inr (p t))"
    by simp
  have c: "calc_depth n = 0" using a by (simp add: calc_depth_def)
  have len: "0 < real (length (trees f))" using a by simp
  show "IForest_score max_exp ndebug v n (f, m) =
          Some (Inr (if 0 < (\<Sum>t\<leftarrow>trees f. p t) then PosInf
                     else if (\<Sum>t\<leftarrow>trees f. p t) < 0 then Finite 0 else NaN, f, m))"
    unfolding score_with_values [OF p] c using len
    by (simp add: zero_less_divide_iff divide_less_0_iff)
qed

theorem score_division_by_zero_witness:
  "calc_depth 1 = 0 \<and> 0 < calc_depth 2
   \<and> IForest_score 1024 True 0 1 (\<lparr>trees = [\<lparr>tree = [default_node], max_depth = 0\<rparr>]\<rparr>, caller_machine [])
       = Some (Inr (Finite 0, \<lparr>trees = [\<lparr>tree = [default_node], max_depth = 0\<rparr>]\<rparr>, caller_machine []))
   \<and> IForest_score 1024 True 0 1 (\<lparr>trees = []\<rparr>, caller_machine [])
       = Some (Inr (NaN, \<lparr>trees = []\<rparr>, caller_machine []))"
proof -
  have p: "\<forall>t \<in> set (trees \<lparr>trees = [\<lparr>tree = [default_node], max_depth = 0\<rparr>]\<rparr>).
           path_length True (tree t) 0 (root_id (tree t)) 0 = Some (Inr ((\<lambda>_. - 1) t))"
    by (simp add: root_id_def path_length.simps default_node_def)
  show ?thesis
    using score_division_by_zero [where n = 1 and f = "\<lparr>trees = [\<lparr>tree = [default_node], max_depth = 0\<rparr>]\<rparr>"
          and ndebug = True and v = 0 and p = "\<lambda>_. - 1" and m = "caller_machine []" and max_exp = 1024]
      score_division_by_zero [where n = 2 and f = "\<lparr>trees = []\<rparr>"
          and ndebug = True and v = 0 and p = "\<lambda>_. - 1" and m = "caller_machine []" and max_exp = 1024]
      score_division_by_zero [where n = 1 and f = "\<lparr>trees = []\<rparr>"
          and ndebug = True and v = 0 and p = "\<lambda>_. - 1" and m = "caller_machine []" and max_exp = 1024] p
    by simp
qed

theorem score_finite_or_nan_counterexample:
  "(case IForest_build (\<lambda>_. 0) 0 (IForest_new 1 0) (caller_machine [1, 2]) of
      Inl e \<Rightarrow> False
    | Inr (f, m) \<Rightarrow> IForest_score 1024 True 0 1 (f, m) = Some (Inr (Finite 0, f, m)))
   \<and> IForest_score 1024 True 0 2 (IForest_new 0 1, caller_machine [])
       = Some (Inr (NaN, IForest_new 0 1, caller_machine []))"
  by (simp add: eval_defs IForest_score_def calc_depth_def)

text \<open>
  C10: \<open>score\<close> returns the forest and the process state (buffers, position of the random
  source) as it received them, so a repeated call with the same value and dataset size
  returns the same result, and the result does not depend on the process state.
\<close>

theorem score_no_mutation:
  "IForest_score max_exp ndebug v n (f, m) = Some (Inr (x, f', m')) \<Longrightarrow>
     f' = f \<and> m' = m \<and> IForest_score max_exp ndebug v n (f', m') = Some (Inr (x, f', m'))
     \<and> IForest_score max_exp ndebug v n (f, m2) = Some (Inr (x, f, m2))"
  by (auto simp add: IForest_score_def Let_def simp del: fdiv.simps fpow2.simps split: option.splits sum.splits)

theorem score_no_mutation_witness:
  "IForest_score 1024 False 7 2
     (\<lparr>trees = [\<lparr>tree = [default_node, default_node, \<lparr>split_value = 5, left = 0, right = 1\<rparr>],
                  max_depth = 1\<rparr>]\<rparr>, caller_machine [5])
   = Some (Inr (Finite 1,
       \<lparr>trees = [\<lparr>tree = [default_node, default_node, \<lparr>split_value = 5, left = 0, right = 1\<rparr>],
                  max_depth = 1\<rparr>]\<rparr>, caller_machine [5]))
   \<and> IForest_score 1024 False 7 2
     (\<lparr>trees = [\<lparr>tree = [default_node, default_node, \<lparr>split_value = 5, left = 0, right = 1\<rparr>],
                  max_depth = 1\<rparr>]\<rparr>, caller_machine [])
   = Some (Inr (Finite 1,
       \<lparr>trees = [\<lparr>tree = [default_node, default_node, \<lparr>split_value = 5, left = 0, right = 1\<rparr>],
                  max_depth = 1\<rparr>]\<rparr>, caller_machine []))"
proof -
  have h: "IForest_score 1024 False 7 2
     (\<lparr>trees = [\<lparr>tree = [default_node, default_node, \<lparr>split_value = 5, left = 0, right = 1\<rparr>],
                  max_depth = 1\<rparr>]\<rparr>, caller_machine [5])
   = Some (Inr (Finite 1,
       \<lparr>trees = [\<lparr>tree = [default_node, default_node, \<lparr>split_value = 5, left = 0, right = 1\<rparr>],
                  max_depth = 1\<rparr>]\<rparr>, caller_machine [5]))"
    by (simp add: IForest_score_def calc_depth_def root_id_def path_length.simps default_node_def)
  show ?thesis
    using score_no_mutation [OF h, of "caller_machine []"] by blast
qed

end
